theory Spec2Isabelle
  imports Main "HOL-Library.Sublist"
begin

section \<open>Python text primitives used by \<open>main.py\<close>\<close>

text \<open>
  \<open>s.find(sub)\<close>: the lowest index at which \<open>sub\<close> occurs in \<open>s\<close>, or \<open>-1\<close> when it
  does not occur. \<open>find_from\<close> scans from the left and carries the index reached.
\<close>

fun find_from :: "'a list \<Rightarrow> 'a list \<Rightarrow> int \<Rightarrow> int" where
  "find_from sub [] i = (if sub = [] then i else - 1)"
| "find_from sub (c # cs) i = (if prefix sub (c # cs) then i else find_from sub cs (i + 1))"

definition py_find :: "'a list \<Rightarrow> 'a list \<Rightarrow> int" where
  "py_find s sub = find_from sub s 0"

text \<open>\<open>sub in s\<close> on text: \<open>sub\<close> occurs somewhere in \<open>s\<close>.\<close>

definition py_in :: "'a list \<Rightarrow> 'a list \<Rightarrow> bool" where
  "py_in sub s = (py_find s sub \<noteq> - 1)"

text \<open>
  The slice \<open>s[:k]\<close>. A negative \<open>k\<close> counts from the end, and a slice never raises.
\<close>

definition py_upto :: "'a list \<Rightarrow> int \<Rightarrow> 'a list" where
  "py_upto s k = (if k < 0 then take (length s - nat (- k)) s else take (nat k) s)"

text \<open>\<open>str(i)\<close> of an integer: its decimal digits, with a minus sign when negative.\<close>

fun digits :: "nat \<Rightarrow> string" where
  "digits n = (if n < 10 then [''0123456789'' ! n]
               else digits (n div 10) @ [''0123456789'' ! (n mod 10)])"

definition py_str :: "int \<Rightarrow> string" where
  "py_str i = (if i < 0 then CHR ''-'' # digits (nat (- i)) else digits (nat i))"

text \<open>
  The exceptions of the program are values of \<open>exn\<close>. A \<open>UserWarning\<close> carries which
  \<open>raise\<close> statement of \<open>main.py\<close> made it, with the arguments of its message:
  \<^item> \<open>IllegalSchema schema\<close>: "Illegal schema ... detected in URL" (\<open>validate_schema\<close>);
  \<^item> \<open>CouldNotResolve url\<close>: "Could not resolve ..." (\<open>validate_url\<close>);
  \<^item> \<open>Gives404 long_url\<close>: "The domain ... exists, but this specific URL gives a 404
    error." (\<open>main_page\<close>; the message shows the domain of \<open>long_url\<close>);
  \<^item> \<open>CriticalJSONFailure\<close>: "Critical JSON failure - Probably an expired WOT API key."
    (\<open>safe_check\<close>);
  \<^item> \<open>NotTrusted categories\<close>: "We don't trust this page. This page may contain ..."
    (\<open>safe_check\<close>; the message joins the category names with commas, in lower case);
  \<^item> \<open>AlreadySimplified\<close>: "You cannot simplify a URL that's already been simplified."
    (\<open>main_page\<close>).
\<close>

datatype warning =
    IllegalSchema string
  | CouldNotResolve string
  | Gives404 string
  | CriticalJSONFailure
  | NotTrusted "string list"
  | AlreadySimplified

datatype exn =
    UserWarning warning
  | KeyError
  | StopIteration
  | TypeError
  | ValueError
  | AttributeError
  | IndexError
  | RequestException

text \<open>
  \<open>xs[i]\<close> on a list or a text: a negative index counts from the end, an index out of
  range raises \<open>IndexError\<close>.
\<close>

definition py_index :: "'a list \<Rightarrow> int \<Rightarrow> exn + 'a" where
  "py_index xs i =
     (let n = int (length xs); j = (if i < 0 then i + n else i)
      in if 0 \<le> j \<and> j < n then Inr (xs ! nat j) else Inl IndexError)"

section \<open>The sequence generator: \<open>next_short_string\<close>\<close>

subsection \<open>Module constants\<close>

text \<open>
  \<open>allowed_characters = string.ascii_lowercase + string.ascii_uppercase + string.digits\<close>
  and \<open>maxchar_limit = len(allowed_characters)\<close>.
\<close>

definition allowed_characters :: string where
  "allowed_characters =
     ''abcdefghijklmnopqrstuvwxyz'' @ ''ABCDEFGHIJKLMNOPQRSTUVWXYZ'' @ ''0123456789''"

definition maxchar_limit :: int where
  "maxchar_limit = int (length allowed_characters)"

text \<open>\<open>protected_paths = ['reverse']\<close>, the reserved strings \<open>main_page\<close> passes in.\<close>

definition protected_paths :: "string list" where
  "protected_paths = [''reverse'']"

subsection \<open>The function\<close>

text \<open>
  The inner helper
  \<^verbatim>\<open>allowed_characters[(allowed_characters.find(letter) + 1) % maxchar_limit]\<close>.
  A letter outside the alphabet has \<open>find = -1\<close> and so becomes \<open>allowed_characters[0]\<close>.
  The index is never negative and always below \<open>maxchar_limit\<close>, so the read is in range.
\<close>

definition increment_symbol :: "char \<Rightarrow> char" where
  "increment_symbol letter =
     allowed_characters ! nat ((py_find allowed_characters [letter] + 1) mod maxchar_limit)"

text \<open>
  The \<open>for num, symbol in reversed(list(enumerate(prev_string)))\<close> loop. The first
  argument is \<open>len(prev_string)\<close>, the second the pairs still to visit, the third the
  mutable list \<open>new_string\<close>. The three branches are the source's \<open>if\<close>, \<open>elif\<close> and
  \<open>else: break\<close>. Every \<open>num\<close> visited is below \<open>len(prev_string)\<close>, which is at most
  \<open>len(new_string)\<close>, and \<open>num + 1\<close> is read only when it differs from
  \<open>len(prev_string)\<close>: all list accesses are in range.
\<close>

fun for_loop :: "nat \<Rightarrow> (nat \<times> char) list \<Rightarrow> string \<Rightarrow> string" where
  "for_loop n [] new_string = new_string"
| "for_loop n ((num, symbol) # rest) new_string =
     (if num + 1 = n then
        (let new_string = new_string[num := increment_symbol symbol] in
         if num = 0 \<and> new_string ! num = CHR ''a''
         then for_loop n rest (new_string @ ''a'')
         else for_loop n rest new_string)
      else if new_string ! (num + 1) = CHR ''a'' then
        (let new_string = new_string[num := increment_symbol symbol] in
         if num = 0 \<and> new_string ! num = CHR ''a''
         then for_loop n rest (new_string @ ''a'')
         else for_loop n rest new_string)
      else new_string)"

text \<open>
  The body between the empty check and the protected check: copy \<open>prev_string\<close> into
  \<open>new_string\<close>, run the loop over the reversed enumeration, join the result.
\<close>

definition increment_string :: "string \<Rightarrow> string" where
  "increment_string prev_string =
     for_loop (length prev_string) (rev (enumerate 0 prev_string)) prev_string"

subsection \<open>The ordering of codes\<close>

text \<open>
  The rank of a symbol is its position in the alphabet, as \<open>find\<close> reports it (so a
  symbol outside the alphabet ranks \<open>-1\<close>, below every symbol of the alphabet). Codes
  are compared by length first, then rank by rank from the leftmost position.
\<close>

definition rank :: "char \<Rightarrow> int" where
  "rank c = py_find allowed_characters [c]"

fun ranks_less :: "int list \<Rightarrow> int list \<Rightarrow> bool" where
  "ranks_less (x # xs) (y # ys) = (x < y \<or> (x = y \<and> ranks_less xs ys))"
| "ranks_less _ _ = False"

definition code_less :: "string \<Rightarrow> string \<Rightarrow> bool" where
  "code_less c d =
     (length c < length d \<or> (length c = length d \<and> ranks_less (map rank c) (map rank d)))"

text \<open>A valid code is a non-empty string over the 62-symbol alphabet.\<close>

definition valid_code :: "string \<Rightarrow> bool" where
  "valid_code c = (c \<noteq> [] \<and> set c \<subseteq> set allowed_characters)"

subsection \<open>Facts about \<open>find\<close> and \<open>increment_symbol\<close>\<close>

lemma distinct_allowed: "distinct allowed_characters"
  by (simp add: allowed_characters_def)

lemma length_allowed: "length allowed_characters = 62"
  by (simp add: allowed_characters_def)

lemma allowed_0: "allowed_characters ! 0 = CHR ''a''"
  by (simp add: allowed_characters_def)

lemma a_allowed: "CHR ''a'' \<in> set allowed_characters"
  by (simp add: allowed_characters_def)

lemma find_from_single_notin: "c \<notin> set xs \<Longrightarrow> find_from [c] xs i = - 1"
  by (induction xs arbitrary: i) auto

lemma find_from_single_nth:
  "distinct xs \<Longrightarrow> j < length xs \<Longrightarrow> find_from [xs ! j] xs i = i + int j"
proof (induction xs arbitrary: i j)
  case Nil
  then show ?case by simp
next
  case (Cons a xs)
  show ?case
  proof (cases j)
    case 0
    then show ?thesis by simp
  next
    case (Suc k)
    with Cons.prems have "xs ! k \<noteq> a" "k < length xs" "distinct xs"
      by auto
    with Cons.IH[of k "i + 1"] Suc show ?thesis by simp
  qed
qed

lemma find_from_single_in:
  "c \<in> set xs \<Longrightarrow> \<exists>j < length xs. xs ! j = c \<and> find_from [c] xs i = i + int j"
proof (induction xs arbitrary: i)
  case Nil
  then show ?case by simp
next
  case (Cons a xs)
  show ?case
  proof (cases "a = c")
    case True
    then show ?thesis by (intro exI[of _ 0]) simp
  next
    case False
    with Cons.prems have "c \<in> set xs" by simp
    from Cons.IH[OF this, of "i + 1"] obtain j where
      "j < length xs" "xs ! j = c" "find_from [c] xs (i + 1) = i + 1 + int j" by blast
    with False show ?thesis by (intro exI[of _ "Suc j"]) simp
  qed
qed

lemma rank_cases:
  "rank c = - 1 \<and> c \<notin> set allowed_characters
   \<or> (\<exists>j < 62. allowed_characters ! j = c \<and> rank c = int j)"
proof (cases "c \<in> set allowed_characters")
  case True
  from find_from_single_in[OF this, of 0] show ?thesis
    by (auto simp: rank_def py_find_def length_allowed)
next
  case False
  then show ?thesis by (simp add: rank_def py_find_def find_from_single_notin)
qed

lemma rank_nth: "j < 62 \<Longrightarrow> rank (allowed_characters ! j) = int j"
  using find_from_single_nth[OF distinct_allowed, of j 0]
  by (simp add: rank_def py_find_def length_allowed)

lemma increment_symbol_rank:
  "increment_symbol c = allowed_characters ! nat ((rank c + 1) mod 62)"
  by (simp add: increment_symbol_def rank_def maxchar_limit_def length_allowed)

lemma increment_symbol_allowed: "increment_symbol c \<in> set allowed_characters"
proof -
  have "nat ((rank c + 1) mod 62) < 62" by simp
  then show ?thesis
    unfolding increment_symbol_rank using length_allowed nth_mem by metis
qed

text \<open>A symbol either wraps to \<open>a\<close> or moves to a strictly higher rank.\<close>

lemma increment_symbol_greater:
  assumes "increment_symbol c \<noteq> CHR ''a''"
  shows "rank c < rank (increment_symbol c)"
proof -
  from rank_cases[of c] consider "rank c = - 1" | j where "j < 62" "rank c = int j"
    by blast
  then show ?thesis
  proof cases
    case 1
    with assms show ?thesis by (simp add: increment_symbol_rank allowed_0)
  next
    case 2
    show ?thesis
    proof (cases "j = 61")
      case True
      with 2 assms show ?thesis by (simp add: increment_symbol_rank allowed_0)
    next
      case False
      with 2 have "Suc j < 62" by simp
      moreover from 2 this have "nat ((rank c + 1) mod 62) = Suc j"
        by (simp add: nat_add_distrib)
      ultimately show ?thesis using 2 rank_nth[of "Suc j"]
        by (simp add: increment_symbol_rank)
    qed
  qed
qed

subsection \<open>The ordering is a strict order\<close>

lemma ranks_less_append: "ranks_less (p @ a) (p @ b) = ranks_less a b"
  by (induction p) auto

lemma ranks_less_irrefl: "\<not> ranks_less a a"
  by (induction a) auto

lemma ranks_less_trans: "ranks_less a b \<Longrightarrow> ranks_less b c \<Longrightarrow> ranks_less a c"
proof (induction a b arbitrary: c rule: ranks_less.induct)
  case (1 x xs y ys)
  then show ?case by (cases c) auto
qed auto

lemma code_less_irrefl: "\<not> code_less c c"
  by (simp add: code_less_def ranks_less_irrefl)

lemma code_less_trans: "code_less a b \<Longrightarrow> code_less b c \<Longrightarrow> code_less a c"
  unfolding code_less_def using ranks_less_trans by auto

lemma code_less_nonempty: "code_less c d \<Longrightarrow> d \<noteq> []"
  by (auto simp: code_less_def)

subsection \<open>One pass of the loop\<close>

text \<open>
  The loop visits the positions of \<open>prev_string\<close> from the right. When it is about to
  visit the last position of \<open>q @ [x]\<close>, the list is \<open>q @ x # t\<close> with \<open>t\<close> the part
  already rewritten.
\<close>

lemma rev_enumerate_snoc:
  "rev (enumerate 0 (q @ [x])) = (length q, x) # rev (enumerate 0 q)"
  by (simp add: enumerate_append_eq)

lemma for_loop_carry:
  assumes "t \<noteq> []"
  shows "for_loop (Suc (length q + length t)) (rev (enumerate 0 (q @ [x]))) (q @ x # t) =
     (if hd t = CHR ''a'' then
        (if q = [] \<and> increment_symbol x = CHR ''a'' then increment_symbol x # t @ ''a''
         else for_loop (Suc (length q + length t)) (rev (enumerate 0 q))
                (q @ increment_symbol x # t))
      else q @ x # t)"
proof -
  from assms obtain a t' where t: "t = a # t'" by (cases t) auto
  show ?thesis
    unfolding rev_enumerate_snoc
    by (cases q) (simp_all add: t nth_append Let_def)
qed

lemma for_loop_first:
  "for_loop (Suc (length q)) (rev (enumerate 0 (q @ [x]))) (q @ [x]) =
     (if q = [] \<and> increment_symbol x = CHR ''a'' then [increment_symbol x, CHR ''a'']
      else for_loop (Suc (length q)) (rev (enumerate 0 q)) (q @ [increment_symbol x]))"
  unfolding rev_enumerate_snoc
  by (cases q) (simp_all add: nth_append Let_def)

text \<open>
  The invariant of the loop: \<open>s\<close> is the original suffix, \<open>t\<close> its rewritten version,
  and the leftmost symbol of \<open>t\<close> either wrapped to \<open>a\<close> (the carry goes on) or is
  strictly higher than the symbol it replaced.
\<close>

lemma for_loop_less:
  assumes "length s = length t" and "t \<noteq> []"
    and "q = [] \<longrightarrow> hd t \<noteq> CHR ''a''"
    and "hd t \<noteq> CHR ''a'' \<longrightarrow> rank (hd s) < rank (hd t)"
  shows "code_less (q @ s) (for_loop (length q + length t) (rev (enumerate 0 q)) (q @ t))"
  using assms
proof (induction q arbitrary: s t rule: rev_induct)
  case Nil
  then obtain a s' b t' where "s = a # s'" "t = b # t'"
    by (cases s; cases t) auto
  with Nil show ?case by (simp add: code_less_def)
next
  case (snoc x q)
  show ?case
  proof (cases "hd t = CHR ''a''")
    case False
    from snoc.prems obtain a s' b t' where st: "s = a # s'" "t = b # t'"
      by (cases s; cases t) auto
    with False snoc.prems have "ranks_less (map rank s) (map rank t)" by simp
    then have "ranks_less (map rank ((q @ [x]) @ s)) (map rank ((q @ [x]) @ t))"
      by (simp only: map_append ranks_less_append)
    with snoc.prems(1) have "code_less ((q @ [x]) @ s) ((q @ [x]) @ t)"
      by (simp add: code_less_def)
    with False snoc.prems(2) show ?thesis
      using for_loop_carry[of t q x] by simp
  next
    case True
    show ?thesis
    proof (cases "q = [] \<and> increment_symbol x = CHR ''a''")
      case True
      with \<open>hd t = CHR ''a''\<close> snoc.prems(1,2) show ?thesis
        using for_loop_carry[of t q x] by (simp add: code_less_def)
    next
      case False
      have "code_less (q @ (x # s))
              (for_loop (length q + length (increment_symbol x # t)) (rev (enumerate 0 q))
                 (q @ (increment_symbol x # t)))"
        using snoc.prems(1) False increment_symbol_greater[of x]
        by (intro snoc.IH) auto
      with False \<open>hd t = CHR ''a''\<close> snoc.prems(2) show ?thesis
        using for_loop_carry[of t q x] by auto
    qed
  qed
qed

lemma for_loop_set:
  assumes "t \<noteq> []"
  shows "set (for_loop (length q + length t) (rev (enumerate 0 q)) (q @ t))
           \<subseteq> set q \<union> set t \<union> range increment_symbol \<union> {CHR ''a''}"
  using assms
proof (induction q arbitrary: t rule: rev_induct)
  case Nil
  then show ?case by auto
next
  case (snoc x q)
  have "set (for_loop (length q + length (increment_symbol x # t)) (rev (enumerate 0 q))
               (q @ (increment_symbol x # t)))
          \<subseteq> set q \<union> set (increment_symbol x # t) \<union> range increment_symbol \<union> {CHR ''a''}"
    by (intro snoc.IH) simp
  with snoc.prems show ?case
    using for_loop_carry[of t q x] by (auto split: if_splits)
qed

subsection \<open>The plain increment goes strictly up and stays in the alphabet\<close>

lemma increment_string_less:
  assumes "c \<noteq> []"
  shows "code_less c (increment_string c)"
proof -
  from assms obtain q x where c: "c = q @ [x]" by (cases c rule: rev_cases) auto
  show ?thesis
  proof (cases "q = [] \<and> increment_symbol x = CHR ''a''")
    case True
    then show ?thesis
      using for_loop_first[of q x] by (simp add: c increment_string_def code_less_def)
  next
    case False
    have "code_less (q @ [x])
            (for_loop (length q + length [increment_symbol x]) (rev (enumerate 0 q))
               (q @ [increment_symbol x]))"
      using False increment_symbol_greater[of x] by (intro for_loop_less) auto
    with False show ?thesis
      using for_loop_first[of q x] by (auto simp: c increment_string_def)
  qed
qed

lemma increment_string_set:
  assumes "c \<noteq> []"
  shows "set (increment_string c) \<subseteq> set c \<union> range increment_symbol \<union> {CHR ''a''}"
proof -
  from assms obtain q x where c: "c = q @ [x]" by (cases c rule: rev_cases) auto
  have "set (for_loop (length q + length [increment_symbol x]) (rev (enumerate 0 q))
               (q @ [increment_symbol x]))
          \<subseteq> set q \<union> set [increment_symbol x] \<union> range increment_symbol \<union> {CHR ''a''}"
    by (intro for_loop_set) simp
  then show ?thesis
    using for_loop_first[of q x] by (auto simp: c increment_string_def split: if_splits)
qed

lemma increment_string_valid:
  assumes "valid_code c"
  shows "valid_code (increment_string c)"
proof -
  from assms have ne: "c \<noteq> []" by (simp add: valid_code_def)
  from increment_string_less[OF ne] have "increment_string c \<noteq> []"
    by (rule code_less_nonempty)
  moreover have "set (increment_string c) \<subseteq> set allowed_characters"
    using increment_string_set[OF ne] assms increment_symbol_allowed a_allowed
    by (auto simp: valid_code_def)
  ultimately show ?thesis by (simp add: valid_code_def)
qed

subsection \<open>The carry rule\<close>

text \<open>
  The increment in closed form: the last symbol moves up; when it wraps to \<open>a\<close> the
  carry increments the rest of the string, and a string whose symbols all wrap grows
  by one \<open>a\<close>.
\<close>

lemma increment_string_single:
  "increment_string [x] =
     (if increment_symbol x = CHR ''a'' then ''aa'' else [increment_symbol x])"
  using for_loop_first[of "[]" x] by (simp add: increment_string_def)

lemma increment_string_no_wrap:
  assumes "increment_symbol x \<noteq> CHR ''a''"
  shows "increment_string (p @ [x]) = p @ [increment_symbol x]"
proof (cases p rule: rev_cases)
  case Nil
  with assms show ?thesis by (simp add: increment_string_single)
next
  case (snoc q y)
  have "for_loop (Suc (length q + length [increment_symbol x])) (rev (enumerate 0 (q @ [y])))
          (q @ y # [increment_symbol x]) = q @ y # [increment_symbol x]"
    using assms by (subst for_loop_carry) simp_all
  then show ?thesis
    using for_loop_first[of p x] by (simp add: snoc increment_string_def)
qed

lemma for_loop_carry_on:
  assumes "q \<noteq> []"
  shows "for_loop (length q + Suc k) (rev (enumerate 0 q)) (q @ replicate (Suc k) (CHR ''a''))
           = increment_string q @ replicate (Suc k) (CHR ''a'')"
  using assms
proof (induction q arbitrary: k rule: rev_induct)
  case Nil
  then show ?case by simp
next
  case (snoc y q)
  let ?t = "replicate (Suc k) (CHR ''a'')"
  have carry: "for_loop (Suc (length q + length ?t)) (rev (enumerate 0 (q @ [y]))) (q @ y # ?t) =
        (if q = [] \<and> increment_symbol y = CHR ''a'' then increment_symbol y # ?t @ ''a''
         else for_loop (Suc (length q + length ?t)) (rev (enumerate 0 q))
                (q @ increment_symbol y # ?t))"
    by (subst for_loop_carry) simp_all
  show ?case
  proof (cases "increment_symbol y = CHR ''a''")
    case wrap: True
    show ?thesis
    proof (cases "q = []")
      case True
      with wrap carry show ?thesis
        by (simp add: increment_string_single replicate_append_same)
    next
      case False
      from snoc.IH[OF False, of "Suc k"] snoc.IH[OF False, of 0]
      show ?thesis
        using carry wrap False for_loop_first[of q y]
        by (simp add: increment_string_def)
    qed
  next
    case no_wrap: False
    have "for_loop (Suc (length q + length ?t)) (rev (enumerate 0 q))
            (q @ increment_symbol y # ?t) = q @ increment_symbol y # ?t"
    proof (cases q rule: rev_cases)
      case Nil
      then show ?thesis by simp
    next
      case (snoc r z)
      show ?thesis
        using no_wrap for_loop_carry[of "increment_symbol y # ?t" r z]
        by (simp add: snoc)
    qed
    with carry no_wrap show ?thesis
      by (simp add: increment_string_no_wrap)
  qed
qed

lemma increment_string_wrap:
  assumes "increment_symbol x = CHR ''a''" and "p \<noteq> []"
  shows "increment_string (p @ [x]) = increment_string p @ ''a''"
  using for_loop_first[of p x] for_loop_carry_on[OF assms(2), of 0] assms
  by (simp add: increment_string_def)

subsection \<open>The measure of the recursion\<close>

text \<open>
  Each collision with a reserved string removes that string from the reserved strings
  still above the current code: the measure of the recursion.
\<close>

lemma reserved_measure_less:
  assumes "code_less s x" and "x \<in> set protected"
  shows "card {p \<in> set protected. code_less x p} < card {p \<in> set protected. code_less s p}"
proof (rule psubset_card_mono)
  show "finite {p \<in> set protected. code_less s p}" by simp
  have "x \<in> {p \<in> set protected. code_less s p}" using assms by simp
  moreover have "x \<notin> {p \<in> set protected. code_less x p}" by (simp add: code_less_irrefl)
  moreover have "{p \<in> set protected. code_less x p} \<subseteq> {p \<in> set protected. code_less s p}"
    using assms(1) code_less_trans by blast
  ultimately show "{p \<in> set protected. code_less x p} \<subset> {p \<in> set protected. code_less s p}"
    by blast
qed

lemma card_reserved_above: "card {p \<in> set protected. code_less s p} \<le> card (set protected)"
  by (rule card_mono) auto

subsection \<open>\<open>next_short_string\<close> itself\<close>

text \<open>
  \<open>def next_short_string(prev_string=None, protected=False)\<close>. The previous string is
  \<open>None\<close> or a string, and \<open>not prev_string\<close> holds for \<open>None\<close> and for the empty string.
  The reserved strings are a list; the default \<open>False\<close> and the empty list are both
  falsy, so \<open>[]\<close> stands for the default. The function calls itself on the candidate
  while the candidate is reserved; that this recursion ends is the termination proof.
\<close>

function next_short_string :: "string option \<Rightarrow> string list \<Rightarrow> string" where
  "next_short_string None protected = ''a''"
| "next_short_string (Some []) protected = ''a''"
| "next_short_string (Some (c # cs)) protected =
     (let new_string = increment_string (c # cs) in
      if protected \<noteq> [] \<and> new_string \<in> set protected
      then next_short_string (Some new_string) protected
      else new_string)"
  by pat_completeness auto
termination
proof (relation "measure (\<lambda>(prev_string, protected).
    case prev_string of None \<Rightarrow> 0 | Some s \<Rightarrow> card {p \<in> set protected. code_less s p})")
  show "wf (measure (\<lambda>(prev_string, protected).
    case prev_string of None \<Rightarrow> 0 | Some s \<Rightarrow> card {p \<in> set protected. code_less s p}))"
    by simp
next
  fix c cs and protected :: "string list" and x
  assume "x = increment_string (c # cs)" and "protected \<noteq> [] \<and> x \<in> set protected"
  then show "((Some x, protected), (Some (c # cs), protected))
      \<in> measure (\<lambda>(prev_string, protected).
          case prev_string of None \<Rightarrow> 0 | Some s \<Rightarrow> card {p \<in> set protected. code_less s p})"
    using reserved_measure_less[of "c # cs" x "protected"] increment_string_less[of "c # cs"]
    by simp
qed

text \<open>
  The same function with a budget of calls: each call, the first included, costs one
  unit, and \<open>None\<close> means the budget ran out before a code was returned.
\<close>

fun next_short_string_fuel :: "nat \<Rightarrow> string option \<Rightarrow> string list \<Rightarrow> string option" where
  "next_short_string_fuel 0 prev_string protected = None"
| "next_short_string_fuel (Suc k) None protected = Some ''a''"
| "next_short_string_fuel (Suc k) (Some []) protected = Some ''a''"
| "next_short_string_fuel (Suc k) (Some (c # cs)) protected =
     (let new_string = increment_string (c # cs) in
      if protected \<noteq> [] \<and> new_string \<in> set protected
      then next_short_string_fuel k (Some new_string) protected
      else Some new_string)"

text \<open>
  \<open>main_page\<close> reads the code of the latest record, calls \<open>next_short_string\<close> on it and
  stores the result as the latest record. \<open>issued protected c k\<close> is the code stored
  after \<open>k\<close> such admissions, starting from a latest code \<open>c\<close>.
\<close>

fun issued :: "string list \<Rightarrow> string \<Rightarrow> nat \<Rightarrow> string" where
  "issued protected c 0 = c"
| "issued protected c (Suc k) = next_short_string (Some (issued protected c k)) protected"

subsection \<open>Properties of \<open>next_short_string\<close>\<close>

lemma next_short_string_props:
  "s \<noteq> [] \<Longrightarrow> prev = Some s \<Longrightarrow>
     next_short_string prev protected \<notin> set protected
     \<and> code_less s (next_short_string prev protected)
     \<and> (valid_code s \<longrightarrow> valid_code (next_short_string prev protected))"
proof (induction prev "protected" arbitrary: s rule: next_short_string.induct)
  case (1 protected)
  then show ?case by simp
next
  case (2 protected)
  then show ?case by simp
next
  case (3 c cs protected)
  let ?new = "increment_string (c # cs)"
  have less: "code_less (c # cs) ?new" by (rule increment_string_less) simp
  have s: "s = c # cs" using 3 by simp
  show ?case
  proof (cases "protected \<noteq> [] \<and> ?new \<in> set protected")
    case True
    have ne: "?new \<noteq> []" using less by (rule code_less_nonempty)
    from "3.IH"[OF refl True ne refl]
    have ih: "next_short_string (Some ?new) protected \<notin> set protected"
      "code_less ?new (next_short_string (Some ?new) protected)"
      "valid_code ?new \<longrightarrow> valid_code (next_short_string (Some ?new) protected)"
      by simp_all
    have eq: "next_short_string (Some (c # cs)) protected
                = next_short_string (Some ?new) protected"
      using True by (simp add: Let_def)
    show ?thesis
      unfolding s eq
      using ih less code_less_trans increment_string_valid by blast
  next
    case False
    then have eq: "next_short_string (Some (c # cs)) protected = ?new"
      by (auto simp: Let_def)
    from False have "?new \<notin> set protected" by auto
    then show ?thesis
      unfolding s eq
      using less increment_string_valid by blast
  qed
qed

lemma next_short_string_not_reserved:
  "s \<noteq> [] \<Longrightarrow> next_short_string (Some s) protected \<notin> set protected"
  using next_short_string_props[of s "Some s" "protected"] by simp

lemma next_short_string_less:
  "s \<noteq> [] \<Longrightarrow> code_less s (next_short_string (Some s) protected)"
  using next_short_string_props[of s "Some s" "protected"] by simp

lemma next_short_string_valid:
  "valid_code s \<Longrightarrow> valid_code (next_short_string (Some s) protected)"
  using next_short_string_props[of s "Some s" "protected"] by (simp add: valid_code_def)

lemma next_short_string_plain:
  "s \<noteq> [] \<Longrightarrow> next_short_string (Some s) [] = increment_string s"
  by (cases s) (simp_all add: Let_def)

lemma next_short_string_collision:
  assumes "s \<noteq> []" and "increment_string s \<in> set protected"
  shows "next_short_string (Some s) protected
           = next_short_string (Some (increment_string s)) protected"
  using assms by (cases s) (auto simp: Let_def)

lemma issued_nonempty: "c \<noteq> [] \<Longrightarrow> issued protected c k \<noteq> []"
proof (induction k)
  case 0
  then show ?case by simp
next
  case (Suc k)
  then have "code_less (issued protected c k) (issued protected c (Suc k))"
    by (simp add: next_short_string_less)
  then show ?case by (rule code_less_nonempty)
qed

lemma issued_step_less:
  "c \<noteq> [] \<Longrightarrow> code_less (issued protected c k) (issued protected c (Suc k))"
  by (simp add: issued_nonempty next_short_string_less)

lemma issued_less:
  assumes "c \<noteq> []" and "i < j"
  shows "code_less (issued protected c i) (issued protected c j)"
  using assms(2)
proof (induction j)
  case 0
  then show ?case by simp
next
  case (Suc j)
  show ?case
  proof (cases "i = j")
    case True
    then show ?thesis using issued_step_less[OF assms(1)] by simp
  next
    case False
    with Suc have "code_less (issued protected c i) (issued protected c j)" by simp
    then show ?thesis
      using issued_step_less[OF assms(1), of "protected" j] code_less_trans by blast
  qed
qed

lemma fuel_enough:
  "s \<noteq> [] \<Longrightarrow> card {p \<in> set protected. code_less s p} < k \<Longrightarrow>
     next_short_string_fuel k (Some s) protected = Some (next_short_string (Some s) protected)"
proof (induction k arbitrary: s)
  case 0
  then show ?case by simp
next
  case (Suc k)
  then obtain c cs where s: "s = c # cs" by (cases s) auto
  let ?new = "increment_string s"
  have less: "code_less s ?new" using Suc.prems(1) by (rule increment_string_less)
  show ?case
  proof (cases "protected \<noteq> [] \<and> ?new \<in> set protected")
    case True
    then have "card {p \<in> set protected. code_less ?new p}
                 < card {p \<in> set protected. code_less s p}"
      using reserved_measure_less[OF less] by simp
    with Suc.prems(2) have "card {p \<in> set protected. code_less ?new p} < k" by simp
    from Suc.IH[OF code_less_nonempty[OF less] this] True show ?thesis
      by (simp add: s Let_def)
  next
    case False
    then show ?thesis by (auto simp: s Let_def)
  qed
qed

lemma valid_z9: "valid_code ''z9''"
  by (simp add: valid_code_def allowed_characters_def)

lemma valid_reversd: "valid_code ''reversd''"
  by (simp add: valid_code_def allowed_characters_def)

section \<open>The admission pipeline of \<open>main_page\<close>\<close>

subsection \<open>Normalization\<close>

text \<open>
  The posted \<open>long_url\<close> is a Python 2 \<open>unicode\<close> string. Until the non-ASCII characters
  are removed it is modelled as the list of its code points \<open>ord(i)\<close>, so that every
  character a request can carry is covered. \<open>py_isspace\<close> lists the code points that
  \<open>unicode.strip()\<close> of Python 2.7 treats as whitespace.
\<close>

definition py_isspace :: "nat \<Rightarrow> bool" where
  "py_isspace i =
     (i \<in> {9, 10, 11, 12, 13, 28, 29, 30, 31, 32, 133, 160, 5760, 6158,
            8232, 8233, 8239, 8287, 12288}
      \<or> (8192 \<le> i \<and> i \<le> 8202))"

definition strip :: "nat list \<Rightarrow> nat list" where
  "strip s = rev (dropWhile py_isspace (rev (dropWhile py_isspace s)))"

text \<open>\<^verbatim>\<open>"".join(i for i in s if ord(i) < 128)\<close>\<close>

definition remove_non_ascii :: "nat list \<Rightarrow> nat list" where
  "remove_non_ascii s = filter (\<lambda>i. i < 128) s"

text \<open>
  Lines 334 and 337 of \<open>main_page\<close>: \<open>long_url.strip()\<close>, then \<open>remove_non_ascii\<close>.
\<close>

definition normalize :: "nat list \<Rightarrow> nat list" where
  "normalize long_url = remove_non_ascii (strip long_url)"

text \<open>
  After normalization every code point is below 128, and the text is carried on as a
  \<open>string\<close>: \<open>text_of\<close> only changes the representation.
\<close>

definition text_of :: "nat list \<Rightarrow> string" where
  "text_of s = map char_of s"

text \<open>The 7-bit printable range, \<open>0x20\<close> to \<open>0x7E\<close>, that the specification speaks of.\<close>

definition printable_7bit :: "nat \<Rightarrow> bool" where
  "printable_7bit i = (32 \<le> i \<and> i \<le> 126)"

subsection \<open>\<open>validate_schema\<close>\<close>

text \<open>\<open>string.punctuation\<close>, in the order of the Python library.\<close>

definition punctuation :: string where
  "punctuation =
     [CHR ''!'', CHR 0x22, CHR ''#'', CHR ''$'', CHR ''%'', CHR ''&'', CHR 0x27, CHR ''('',
      CHR '')'', CHR ''*'', CHR ''+'', CHR '','', CHR ''-'', CHR ''.'', CHR ''/'', CHR '':'',
      CHR '';'', CHR ''<'', CHR ''='', CHR ''>'', CHR ''?'', CHR ''@'', CHR ''['', CHR 0x5C,
      CHR '']'', CHR ''^'', CHR ''_'', CHR 0x60, CHR ''{'', CHR ''|'', CHR ''}'', CHR ''~'']"

text \<open>
  The \<open>for char in url\<close> loop of the \<open>else\<close> branch: it stops at the first punctuation
  character, and sets \<open>schema\<close> only when that character is a colon. The second argument
  is the part of \<open>url\<close> still to visit; the result is \<open>schema\<close> when the loop ends.
\<close>

fun schema_loop :: "string \<Rightarrow> string \<Rightarrow> string" where
  "schema_loop url [] = ''''"
| "schema_loop url (char # rest) =
     (if char \<in> set punctuation then
        (if char = CHR '':'' then py_upto url (py_find url '':'') else '''')
      else schema_loop url rest)"

text \<open>The block "determine which schema the url has": the value of \<open>schema\<close> after it.\<close>

definition schema_of :: "string \<Rightarrow> string" where
  "schema_of url =
     (if py_in ''://'' url then py_upto url (py_find url ''://'') else schema_loop url url)"

definition validate_schema :: "string \<Rightarrow> exn + string" where
  "validate_schema url =
     (let schema = schema_of url in
      if schema \<in> set [''http'', ''https''] then Inr url
      else if schema = '''' then Inr (''http://'' @ url)
      else Inl (UserWarning (IllegalSchema schema)))"

subsection \<open>\<open>validate_url\<close> and the 404 test\<close>

text \<open>
  What \<open>requests.get(url)\<close> did: it raised (\<open>Failed\<close>), or it returned a response with a
  status code and a reason phrase, both chosen by the server.
\<close>

datatype fetch = Failed | Fetched (status_code: int) (reason: string)

definition validate_url :: "string \<Rightarrow> fetch \<Rightarrow> exn + string" where
  "validate_url url got =
     (case got of
        Failed \<Rightarrow> Inl (UserWarning (CouldNotResolve url))
      | Fetched code phrase \<Rightarrow> Inr (py_str code @ '': '' @ phrase))"

text \<open>
  Lines 343 to 346 of \<open>main_page\<close>: \<open>url_status = validate_url(long_url)\<close>, then
  \<open>if '404' in url_status: raise UserWarning(...)\<close>.
\<close>

definition reachability :: "string \<Rightarrow> fetch \<Rightarrow> exn + string" where
  "reachability long_url got =
     (case validate_url long_url got of
        Inl e \<Rightarrow> Inl e
      | Inr url_status \<Rightarrow>
          if py_in ''404'' url_status then Inl (UserWarning (Gives404 long_url))
          else Inr url_status)"

subsection \<open>\<open>safe_check\<close>\<close>

text \<open>
  The values \<open>json.loads\<close> returns. Object members are listed in the order in which the
  Python dictionary iterates over them; a number that is not an integer is \<open>JFloat\<close>,
  and the program never looks inside one.
\<close>

datatype json =
    JNull
  | JBool bool
  | JInt int
  | JFloat
  | JStr string
  | JArr "json list"
  | JObj "(string \<times> json) list"

text \<open>
  What the request to the reputation service gave: \<open>requests.get\<close> raised
  (\<open>Unreachable\<close>), \<open>json.loads\<close> raised \<open>ValueError\<close> on the payload (\<open>Unparseable\<close>), or
  the payload was parsed.
\<close>

datatype wot_reply = Unreachable | Unparseable | Parsed json

definition unwanted_WOT_categories :: "(int \<times> string) list" where
  "unwanted_WOT_categories =
     [(101, ''Malware or viruses''), (103, ''Phishing attempts''), (104, ''Scams''),
      (105, ''Potentially illegal elements''), (203, ''Suspicious elements''),
      (204, ''Hate, discrimination''), (205, ''Spam''),
      (206, ''Potentially unwanted programs'')]"

text \<open>
  \<open>next(iter(x))\<close>: the first key of an object, the first element of an array, the
  first character of a text; \<open>StopIteration\<close> when there is none, \<open>TypeError\<close> on a value
  that cannot be iterated.
\<close>

fun py_next_iter :: "json \<Rightarrow> exn + json" where
  "py_next_iter (JObj []) = Inl StopIteration"
| "py_next_iter (JObj ((k, v) # kvs)) = Inr (JStr k)"
| "py_next_iter (JArr []) = Inl StopIteration"
| "py_next_iter (JArr (x # xs)) = Inr x"
| "py_next_iter (JStr []) = Inl StopIteration"
| "py_next_iter (JStr (c # cs)) = Inr (JStr [c])"
| "py_next_iter _ = Inl TypeError"

text \<open>
  \<open>x[key]\<close>: a dictionary raises \<open>KeyError\<close> on a missing key and \<open>TypeError\<close> on an
  unhashable one; a list or a text takes integers (and booleans) only; nothing else
  can be subscripted.
\<close>

fun py_getitem :: "json \<Rightarrow> json \<Rightarrow> exn + json" where
  "py_getitem (JObj kvs) (JStr k) =
     (case map_of kvs k of None \<Rightarrow> Inl KeyError | Some v \<Rightarrow> Inr v)"
| "py_getitem (JObj kvs) (JArr xs) = Inl TypeError"
| "py_getitem (JObj kvs) (JObj xs) = Inl TypeError"
| "py_getitem (JObj kvs) _ = Inl KeyError"
| "py_getitem (JArr xs) (JInt i) = py_index xs i"
| "py_getitem (JArr xs) (JBool b) = py_index xs (if b then 1 else 0)"
| "py_getitem (JArr xs) _ = Inl TypeError"
| "py_getitem (JStr s) (JInt i) = map_sum id (\<lambda>c. JStr [c]) (py_index s i)"
| "py_getitem (JStr s) (JBool b) = map_sum id (\<lambda>c. JStr [c]) (py_index s (if b then 1 else 0))"
| "py_getitem (JStr s) _ = Inl TypeError"
| "py_getitem _ _ = Inl TypeError"

fun py_keys :: "json \<Rightarrow> exn + string list" where
  "py_keys (JObj kvs) = Inr (map fst kvs)"
| "py_keys _ = Inl AttributeError"

text \<open>
  The comprehension \<open>[unwanted_WOT_categories[int(i)] for i in categories.keys()]\<close>.
  \<open>to_int\<close> is Python's \<open>int\<close> on a text, \<open>None\<close> where it raises \<open>ValueError\<close>; it is a
  parameter, so nothing here depends on which spellings of a number \<open>int\<close> accepts.
  The first key that fails decides the exception.
\<close>

fun lookup_categories :: "(string \<Rightarrow> int option) \<Rightarrow> string list \<Rightarrow> exn + string list" where
  "lookup_categories to_int [] = Inr []"
| "lookup_categories to_int (i # rest) =
     (case to_int i of
        None \<Rightarrow> Inl ValueError
      | Some n \<Rightarrow>
          (case map_of unwanted_WOT_categories n of
             None \<Rightarrow> Inl KeyError
           | Some name \<Rightarrow>
               (case lookup_categories to_int rest of
                  Inl e \<Rightarrow> Inl e
                | Inr names \<Rightarrow> Inr (name # names))))"

text \<open>
  The body of the second \<open>try\<close>. It never returns: it ends in a \<open>raise\<close>, so its value
  is the exception it raises.
\<close>

definition try_body :: "(string \<Rightarrow> int option) \<Rightarrow> json \<Rightarrow> exn" where
  "try_body to_int request_json =
     (case py_next_iter request_json of Inl e \<Rightarrow> e | Inr first \<Rightarrow>
      case py_getitem request_json first of Inl e \<Rightarrow> e | Inr host \<Rightarrow>
      case py_getitem host (JStr ''categories'') of Inl e \<Rightarrow> e | Inr categories \<Rightarrow>
      case py_keys categories of Inl e \<Rightarrow> e | Inr keys \<Rightarrow>
      case lookup_categories to_int keys of Inl e \<Rightarrow> e | Inr categories \<Rightarrow>
      UserWarning (NotTrusted categories))"

text \<open>
  \<open>safe_check\<close>: the first \<open>try\<close> turns the \<open>ValueError\<close> of \<open>json.loads\<close> into a
  \<open>UserWarning\<close>; the second catches \<open>KeyError\<close> and \<open>StopIteration\<close> and returns \<open>True\<close>;
  every other exception leaves the function.
\<close>

definition safe_check :: "(string \<Rightarrow> int option) \<Rightarrow> wot_reply \<Rightarrow> exn + bool" where
  "safe_check to_int reply =
     (case reply of
        Unreachable \<Rightarrow> Inl RequestException
      | Unparseable \<Rightarrow> Inl (UserWarning CriticalJSONFailure)
      | Parsed request_json \<Rightarrow>
          (case try_body to_int request_json of
             KeyError \<Rightarrow> Inr True
           | StopIteration \<Rightarrow> Inr True
           | e \<Rightarrow> Inl e))"

text \<open>
  \<open>int\<close> on a non-empty text of ASCII decimal digits, and \<open>None\<close> on every other text:
  the reading of \<open>to_int\<close> used in the examples. It is not \<open>int\<close> itself, which also
  accepts surrounding whitespace and a sign; the examples apply it to digit-only keys,
  where the two agree.
\<close>

definition decimal :: "string \<Rightarrow> int option" where
  "decimal s =
     (if s \<noteq> [] \<and> set s \<subseteq> set ''0123456789''
      then Some (foldl (\<lambda>n c. 10 * n + py_find ''0123456789'' [c]) 0 s) else None)"

text \<open>
  A reply of the service that names malware (101) and a category the program does not
  list (501).
\<close>

definition wot_example :: json where
  "wot_example =
     JObj [(''example.com'',
            JObj [(''target'', JStr ''example.com''),
                  (''categories'', JObj [(''101'', JInt 90), (''501'', JInt 99)])])]"

subsection \<open>The self-reference test and the whole \<open>try\<close> block\<close>

text \<open>
  Lines 352 to 354: \<open>if request.url in long_url and request.url != long_url: raise\<close>.
\<close>

definition self_reference :: "string \<Rightarrow> string \<Rightarrow> exn + string" where
  "self_reference request_url long_url =
     (if py_in request_url long_url \<and> request_url \<noteq> long_url
      then Inl (UserWarning AlreadySimplified)
      else Inr long_url)"

text \<open>
  The \<open>try\<close> block of \<open>main_page\<close>, entered when the posted \<open>long_url\<close> is not empty.
  \<open>Inr long_url\<close>: the block ended with \<open>url_is_safe = True\<close> and this \<open>long_url\<close>.
  \<open>Inl (UserWarning w)\<close>: the \<open>except UserWarning\<close> clause declined the URL.
  Any other \<open>Inl e\<close>: the exception left \<open>main_page\<close>.
\<close>

definition admit ::
  "(string \<Rightarrow> int option) \<Rightarrow> string \<Rightarrow> nat list \<Rightarrow> fetch \<Rightarrow> wot_reply \<Rightarrow> exn + string" where
  "admit to_int request_url long_url got reply =
     (let long_url = text_of (normalize long_url) in
      case validate_schema long_url of Inl e \<Rightarrow> Inl e | Inr long_url \<Rightarrow>
      case reachability long_url got of Inl e \<Rightarrow> Inl e | Inr url_status \<Rightarrow>
      case safe_check to_int reply of Inl e \<Rightarrow> Inl e | Inr url_is_safe \<Rightarrow>
      self_reference request_url long_url)"

subsection \<open>Text search\<close>

lemma find_from_sublist: "0 \<le> i \<Longrightarrow> (find_from sub s i \<noteq> - 1) = sublist sub s"
proof (induction s arbitrary: i)
  case Nil
  then show ?case by auto
next
  case (Cons c cs)
  from Cons.IH[of "i + 1"] Cons.prems show ?case
    by (auto simp: sublist_Cons_right)
qed

text \<open>\<open>sub in s\<close> holds exactly when \<open>s = ps @ sub @ ss\<close> for some \<open>ps\<close> and \<open>ss\<close>.\<close>

lemma py_in_sublist: "py_in sub s = sublist sub s"
  by (simp add: py_in_def py_find_def find_from_sublist)

lemma find_from_skip:
  "x \<notin> set s \<Longrightarrow> find_from (x # sub) (s @ x # sub @ rest) i = i + int (length s)"
  by (induction s arbitrary: i) auto

lemma py_upto_length: "py_upto (s @ t) (int (length s)) = s"
  by (simp add: py_upto_def)

subsection \<open>Trimming\<close>

lemma strip_decomposition:
  "\<exists>pre post. s = pre @ strip s @ post \<and> list_all py_isspace pre \<and> list_all py_isspace post"
proof -
  let ?d = "dropWhile py_isspace s"
  have "s = takeWhile py_isspace s @ ?d" by simp
  moreover have "rev ?d = takeWhile py_isspace (rev ?d) @ dropWhile py_isspace (rev ?d)"
    by simp
  then have "?d = strip s @ rev (takeWhile py_isspace (rev ?d))"
    unfolding strip_def by (metis rev_append rev_rev_ident)
  ultimately have "s = takeWhile py_isspace s @ strip s @ rev (takeWhile py_isspace (rev ?d))"
    by simp
  moreover have "list_all py_isspace (takeWhile py_isspace s)"
    by (simp add: list_all_iff) (meson set_takeWhileD)
  moreover have "list_all py_isspace (rev (takeWhile py_isspace (rev ?d)))"
    by (simp add: list_all_iff) (meson set_takeWhileD)
  ultimately show ?thesis by blast
qed

lemma strip_ends:
  assumes "strip s \<noteq> []"
  shows "\<not> py_isspace (hd (strip s)) \<and> \<not> py_isspace (last (strip s))"
proof -
  let ?d = "dropWhile py_isspace s"
  let ?e = "dropWhile py_isspace (rev ?d)"
  from assms have e: "?e \<noteq> []" by (simp add: strip_def)
  have d: "?d \<noteq> []"
  proof
    assume a: "?d = []"
    have "?e = []" unfolding a by simp
    with e show False by simp
  qed
  have "last (strip s) = hd ?e" using e by (simp add: strip_def last_rev)
  moreover have "\<not> py_isspace (hd ?e)" using e by (rule hd_dropWhile)
  moreover have "hd (strip s) = last ?e" using e by (simp add: strip_def hd_rev)
  moreover have "last ?e = last (rev ?d)"
    using e by (metis append_Nil2 last_appendR takeWhile_dropWhile_id)
  moreover have "last (rev ?d) = hd ?d" using d by (simp add: last_rev)
  moreover have "\<not> py_isspace (hd ?d)" using d by (rule hd_dropWhile)
  ultimately show ?thesis by simp
qed

subsection \<open>The schema found in a URL\<close>

text \<open>A text without a colon in front of \<open>://\<close> is the schema found.\<close>

lemma schema_of_explicit:
  assumes "CHR '':'' \<notin> set s"
  shows "schema_of (s @ ''://'' @ rest) = s"
proof -
  have "find_from ''://'' (s @ ''://'' @ rest) 0 = int (length s)"
    using find_from_skip[OF assms, of "''//''" rest 0] by simp
  then show ?thesis
    by (simp add: schema_of_def py_in_def py_find_def py_upto_length)
qed

lemma colon_punctuation: "CHR '':'' \<in> set punctuation"
  by (simp add: punctuation_def)

lemma schema_loop_colon:
  assumes "set s \<inter> set punctuation = {}"
  shows "schema_loop url (s @ CHR '':'' # rest) = py_upto url (py_find url '':'')"
  using assms by (induction s) (auto simp: colon_punctuation)

text \<open>
  Without \<open>://\<close>, a text free of punctuation in front of the first colon is the schema
  found.
\<close>

lemma schema_of_colon:
  assumes "\<not> py_in ''://'' (s @ CHR '':'' # rest)" and "set s \<inter> set punctuation = {}"
  shows "schema_of (s @ CHR '':'' # rest) = s"
proof -
  from assms(2) have "CHR '':'' \<notin> set s" using colon_punctuation by auto
  then have "find_from '':'' (s @ CHR '':'' # rest) 0 = int (length s)"
    using find_from_skip[of "CHR '':''" s "[]" rest 0] by simp
  with assms show ?thesis
    by (simp add: schema_of_def schema_loop_colon py_find_def py_upto_length)
qed

lemma schema_loop_none:
  "set s \<inter> set punctuation = {} \<Longrightarrow> schema_loop url s = ''''"
  by (induction s) auto

lemma schema_loop_other:
  "set s \<inter> set punctuation = {} \<Longrightarrow> c \<in> set punctuation \<Longrightarrow> c \<noteq> CHR '':'' \<Longrightarrow>
     schema_loop url (s @ c # rest) = ''''"
  by (induction s) auto

lemma validate_schema_cases:
  "validate_schema url =
     (if schema_of url = ''http'' \<or> schema_of url = ''https'' then Inr url
      else if schema_of url = '''' then Inr (''http://'' @ url)
      else Inl (UserWarning (IllegalSchema (schema_of url))))"
  by (simp add: validate_schema_def Let_def)

subsection \<open>The 404 test\<close>

text \<open>A status of 404 is declined whatever the reason phrase, and so is a failed fetch.\<close>

lemma reachability_404:
  "reachability long_url (Fetched 404 phrase) = Inl (UserWarning (Gives404 long_url))"
  by (simp add: reachability_def validate_url_def py_str_def py_in_def py_find_def)

lemma reachability_failed:
  "reachability long_url Failed = Inl (UserWarning (CouldNotResolve long_url))"
  by (simp add: reachability_def validate_url_def)

text \<open>
  For a three-digit status code the test fires exactly when the code is 404 or the
  reason phrase holds the text \<open>404\<close>.
\<close>

lemma digits_three:
  assumes "100 \<le> n" and "n \<le> 999"
  shows "digits n = [''0123456789'' ! (n div 100), ''0123456789'' ! (n div 10 mod 10),
                     ''0123456789'' ! (n mod 10)]"
proof -
  have a: "digits n = digits (n div 10) @ [''0123456789'' ! (n mod 10)]"
    using assms by (subst digits.simps) (simp del: digits.simps)
  have d: "n div 10 div 10 = n div 100" by (simp add: div_mult2_eq)
  have b: "digits (n div 10) = digits (n div 100) @ [''0123456789'' ! (n div 10 mod 10)]"
    using assms by (subst digits.simps) (simp del: digits.simps add: d)
  have c: "digits (n div 100) = [''0123456789'' ! (n div 100)]"
    using assms by (subst digits.simps) (simp del: digits.simps)
  show ?thesis by (simp only: a b c append.simps)
qed

lemma digit_cases: "a < 10 \<Longrightarrow> a \<in> {0, 1, 2, 3, 4, 5, 6, 7, 8, 9 :: nat}"
  by auto

lemma digit_4: "a < 10 \<Longrightarrow> (''0123456789'' ! a = CHR ''4'') = (a = 4)"
  using digit_cases[of a] by auto

lemma digit_0: "a < 10 \<Longrightarrow> (''0123456789'' ! a = CHR ''0'') = (a = 0)"
  using digit_cases[of a] by auto

lemma digits_404:
  assumes "100 \<le> n" and "n \<le> 999"
  shows "(digits n = ''404'') = (n = 404)"
proof -
  have r: "n div 100 < 10" "n div 10 mod 10 < 10" "n mod 10 < 10" using assms by simp_all
  have "(digits n = ''404'') = (n div 100 = 4 \<and> n div 10 mod 10 = 0 \<and> n mod 10 = 4)"
    unfolding digits_three[OF assms] list.inject digit_4[OF r(1)] digit_0[OF r(2)] digit_4[OF r(3)]
    by simp
  also have "\<dots> = (n = 404)"
  proof
    assume h: "n div 100 = 4 \<and> n div 10 mod 10 = 0 \<and> n mod 10 = 4"
    have "n div 10 = 10 * (n div 10 div 10) + n div 10 mod 10" by simp
    also have "n div 10 div 10 = n div 100" by (simp add: div_mult2_eq)
    finally have "n div 10 = 40" using h by simp
    moreover have "n = 10 * (n div 10) + n mod 10" by simp
    ultimately show "n = 404" using h by simp
  next
    assume "n = 404"
    then show "n div 100 = 4 \<and> n div 10 mod 10 = 0 \<and> n mod 10 = 4" by simp
  qed
  finally show ?thesis .
qed

lemma reachability_three_digit_status:
  assumes "100 \<le> code" and "code \<le> 999"
  shows "reachability long_url (Fetched code phrase) =
     (if code = 404 \<or> py_in ''404'' phrase then Inl (UserWarning (Gives404 long_url))
      else Inr (py_str code @ '': '' @ phrase))"
proof -
  have n: "100 \<le> nat code" "nat code \<le> 999" using assms by simp_all
  obtain a b c where abc: "digits (nat code) = [a, b, c]"
    using digits_three[OF n] by blast
  have "(digits (nat code) = ''404'') = (code = 404)"
    using digits_404[OF n] assms by (auto simp del: digits.simps)
  then have "([a, b, c] = ''404'') = (code = 404)" by (simp only: abc)
  then have "sublist ''404'' ([a, b, c] @ '': '' @ phrase)
               = (code = 404 \<or> sublist ''404'' phrase)"
    by (auto simp: sublist_Cons_right)
  with assms show ?thesis
    by (simp add: reachability_def validate_url_def py_str_def py_in_sublist abc
        del: digits.simps)
qed

text \<open>The self-reference test declines exactly the URLs that hold the base URL somewhere
  and differ from it.\<close>

lemma self_reference_sublist:
  "self_reference request_url long_url =
     (if sublist request_url long_url \<and> request_url \<noteq> long_url
      then Inl (UserWarning AlreadySimplified) else Inr long_url)"
  by (simp add: self_reference_def py_in_sublist)

subsection \<open>The stages of the \<open>try\<close> block\<close>

lemma admit_schema_rejected:
  "validate_schema (text_of (normalize raw)) = Inl e \<Longrightarrow>
     admit to_int request_url raw got reply = Inl e"
  by (simp add: admit_def)

lemma admit_reachability_rejected:
  "validate_schema (text_of (normalize raw)) = Inr u \<Longrightarrow> reachability u got = Inl e \<Longrightarrow>
     admit to_int request_url raw got reply = Inl e"
  by (simp add: admit_def)

lemma admit_after_reachability:
  "validate_schema (text_of (normalize raw)) = Inr u \<Longrightarrow> reachability u got = Inr st \<Longrightarrow>
     admit to_int request_url raw got reply =
       (case safe_check to_int reply of
          Inl e \<Rightarrow> Inl e
        | Inr url_is_safe \<Rightarrow> self_reference request_url u)"
  by (simp add: admit_def)

lemma safe_check_unparseable:
  "safe_check to_int Unparseable = Inl (UserWarning CriticalJSONFailure)"
  by (simp add: safe_check_def)

lemma admit_unparseable_not_admitted:
  "admit to_int request_url raw got Unparseable \<noteq> Inr v"
  by (simp add: admit_def safe_check_unparseable split: sum.splits)

lemma recognised_codes:
  "(map_of unwanted_WOT_categories n = None) = (n \<notin> {101, 103, 104, 105, 203, 204, 205, 206})"
  by (simp add: unwanted_WOT_categories_def)

text \<open>
  When every key reads as a number and one of the numbers is not listed, the
  comprehension raises \<open>KeyError\<close>, wherever the listed ones stand.
\<close>

lemma lookup_categories_KeyError:
  assumes "\<forall>k \<in> set keys. to_int k \<noteq> None"
    and "k \<in> set keys" and "to_int k = Some n" and "map_of unwanted_WOT_categories n = None"
  shows "lookup_categories to_int keys = Inl KeyError"
  using assms
proof (induction keys)
  case Nil
  then show ?case by simp
next
  case (Cons i rest)
  from Cons.prems(1) obtain m where m: "to_int i = Some m" by auto
  show ?case
  proof (cases "map_of unwanted_WOT_categories m")
    case None
    with m show ?thesis by simp
  next
    case (Some name)
    with m Cons.prems have "k \<in> set rest" by auto
    with Cons have "lookup_categories to_int rest = Inl KeyError" by simp
    with m Some show ?thesis by simp
  qed
qed

lemma safe_check_KeyError:
  assumes "map_of host_data ''categories'' = Some (JObj cats)"
    and "lookup_categories to_int (map fst cats) = Inl KeyError"
  shows "safe_check to_int (Parsed (JObj ((host, JObj host_data) # others))) = Inr True"
  using assms by (simp add: safe_check_def try_body_def)

subsection \<open>A sample admission\<close>

lemma normalize_example:
  "text_of (normalize (map of_char '' example.com/page '')) = ''example.com/page''"
  by (simp add: normalize_def strip_def remove_non_ascii_def py_isspace_def text_of_def
      char_of_def bit_0)

lemma validate_schema_example:
  "validate_schema ''example.com/page'' = Inr ''http://example.com/page''"
  by (simp add: validate_schema_def schema_of_def py_in_def py_find_def punctuation_def)

lemma normalized_schema_example:
  "validate_schema (text_of (normalize (map of_char '' example.com/page '')))
     = Inr ''http://example.com/page''"
  by (simp only: normalize_example validate_schema_example)

lemma reachability_example:
  "reachability ''http://example.com/page'' (Fetched 200 ''OK'') = Inr ''200: OK''"
  by (simp add: reachability_def validate_url_def py_str_def py_in_def py_find_def)

lemma self_reference_example:
  "self_reference ''http://short.beardfist.com/'' ''http://example.com/page''
     = Inr ''http://example.com/page''"
  by (simp add: self_reference_def py_in_def py_find_def)

lemma decimal_examples: "decimal ''101'' = Some 101" "decimal ''501'' = Some 501"
  by (simp_all add: decimal_def py_find_def)

section \<open>The claims\<close>

text \<open>
  Claim C1. For every valid prior code \<open>c\<close> (a non-empty string over the 62-symbol
  alphabet), \<open>next_short_string(c)\<close> is a valid code strictly greater than \<open>c\<close> in the
  ordering of codes (length first, then symbol ranks from the most significant
  position), whatever the reserved strings are; hence, iterating the generator from
  \<open>c\<close>, the codes issued after \<open>i\<close> and after \<open>j\<close> steps, \<open>i < j\<close>, are in strictly
  increasing order and never equal.
\<close>

theorem next_short_string_strictly_increasing:
  assumes "valid_code c" and "i < j"
  shows "code_less c (next_short_string (Some c) protected)
         \<and> valid_code (next_short_string (Some c) protected)
         \<and> code_less (issued protected c i) (issued protected c j)
         \<and> issued protected c i \<noteq> issued protected c j"
proof -
  from assms(1) have ne: "c \<noteq> []" by (simp add: valid_code_def)
  have "code_less (issued protected c i) (issued protected c j)"
    using ne assms(2) by (rule issued_less)
  moreover from this have "issued protected c i \<noteq> issued protected c j"
    using code_less_irrefl by auto
  ultimately show ?thesis
    using next_short_string_less[OF ne] next_short_string_valid[OF assms(1)] by simp
qed

theorem next_short_string_strictly_increasing_witness:
  "valid_code ''z9'' \<and> (0::nat) < 2
   \<and> code_less ''z9'' (next_short_string (Some ''z9'') [])
   \<and> issued [] ''z9'' 0 \<noteq> issued [] ''z9'' 2"
  using next_short_string_strictly_increasing[OF valid_z9, of 0 2 "[]"] valid_z9 by simp

text \<open>
  Six of the seven worked examples of the docstring and of the specification hold on
  the code: no previous code gives \<open>a\<close>, and \<open>a \<mapsto> b\<close>, \<open>z \<mapsto> A\<close>, \<open>9 \<mapsto> aa\<close>,
  \<open>abz \<mapsto> abA\<close> and \<open>9999 \<mapsto> aaaaa\<close>.
\<close>

lemma next_short_string_six_examples:
  "next_short_string None [] = ''a''
   \<and> next_short_string (Some ''a'') [] = ''b''
   \<and> next_short_string (Some ''z'') [] = ''A''
   \<and> next_short_string (Some ''9'') [] = ''aa''
   \<and> next_short_string (Some ''abz'') [] = ''abA''
   \<and> next_short_string (Some ''9999'') [] = ''aaaaa''"
  by code_simp

text \<open>
  Claim C2 lists \<open>next_short_string("aBCf99") = "aCDgaa"\<close> among the worked examples,
  as the docstring of \<open>next_short_string\<close> does. On this input the code does not return
  what its docstring states: the loop stops at the first symbol that does not wrap, so
  the \<open>f\<close> becomes \<open>g\<close>, nothing to its left changes, and the function returns
  \<open>aBCgaa\<close>.
\<close>

theorem next_short_string_aBCf99_breaks_docstring:
  "next_short_string (Some ''aBCf99'') [] = ''aBCgaa''
   \<and> next_short_string (Some ''aBCf99'') [] \<noteq> ''aCDgaa''"
  by code_simp

text \<open>
  Claim C3. For every valid prior code \<open>c\<close> and every list of reserved strings,
  \<open>next_short_string(c, reserved)\<close> is never reserved, is a valid code and is strictly
  greater than \<open>c\<close>; when the plain increment of \<open>c\<close> is reserved, the result differs
  from that increment and lies strictly above it.
\<close>

theorem next_short_string_avoids_reserved:
  assumes "valid_code c"
  shows "next_short_string (Some c) protected \<notin> set protected
         \<and> valid_code (next_short_string (Some c) protected)
         \<and> code_less c (next_short_string (Some c) protected)
         \<and> (next_short_string (Some c) [] \<in> set protected \<longrightarrow>
              next_short_string (Some c) protected \<noteq> next_short_string (Some c) []
              \<and> code_less (next_short_string (Some c) [])
                   (next_short_string (Some c) protected))"
proof -
  from assms have ne: "c \<noteq> []" by (simp add: valid_code_def)
  have "code_less (increment_string c) (next_short_string (Some c) protected)"
    if "increment_string c \<in> set protected"
    using next_short_string_collision[OF ne that]
      next_short_string_less[OF code_less_nonempty[OF increment_string_less[OF ne]],
        of "protected"]
    by simp
  then show ?thesis
    using next_short_string_not_reserved[OF ne] next_short_string_valid[OF assms]
      next_short_string_less[OF ne] code_less_irrefl
    by (auto simp: next_short_string_plain[OF ne])
qed

theorem next_short_string_avoids_reserved_witness:
  "valid_code ''reversd''
   \<and> next_short_string (Some ''reversd'') [] \<in> set protected_paths
   \<and> next_short_string (Some ''reversd'') protected_paths \<notin> set protected_paths
   \<and> next_short_string (Some ''reversd'') protected_paths
       \<noteq> next_short_string (Some ''reversd'') []
   \<and> code_less ''reversd'' (next_short_string (Some ''reversd'') protected_paths)"
proof -
  have "next_short_string (Some ''reversd'') [] \<in> set protected_paths"
    by code_simp
  with next_short_string_avoids_reserved[OF valid_reversd, of protected_paths] valid_reversd
  show ?thesis by blast
qed

text \<open>
  Claim C4, as the specification states it, has a reply whose payload cannot be parsed
  as JSON pass the reputation check. \<open>safe_check\<close> answers the \<open>ValueError\<close> of
  \<open>json.loads\<close> with a \<open>UserWarning\<close>, which \<open>main_page\<close> catches and shows as the error:
  the sample admission, which passes the two earlier stages, is declined.
\<close>

theorem safe_check_unparseable_counterexample:
  "safe_check decimal Unparseable \<noteq> Inr True
   \<and> admit decimal ''http://short.beardfist.com/'' (map of_char '' example.com/page '')
        (Fetched 200 ''OK'') Unparseable = Inl (UserWarning CriticalJSONFailure)"
  using admit_after_reachability[OF normalized_schema_example reachability_example,
      of decimal "''http://short.beardfist.com/''" Unparseable]
  by (simp add: safe_check_unparseable)

text \<open>
  Claim C4, amended. In the reputation-check stage, a reply whose payload cannot be
  parsed as JSON is a failure: \<open>safe_check\<close> raises the \<open>UserWarning\<close> "Critical JSON
  failure", an admission that reached the stage is declined with that warning, and no
  admission with such a reply is ever accepted.
\<close>

theorem safe_check_unparseable_rejects:
  "safe_check to_int Unparseable = Inl (UserWarning CriticalJSONFailure)
   \<and> (validate_schema (text_of (normalize raw)) = Inr u \<longrightarrow> reachability u got = Inr st \<longrightarrow>
        admit to_int request_url raw got Unparseable = Inl (UserWarning CriticalJSONFailure))
   \<and> admit to_int request_url raw got Unparseable \<noteq> Inr v"
  using admit_after_reachability[of raw u got st to_int request_url Unparseable]
  by (simp add: safe_check_unparseable admit_unparseable_not_admitted)

theorem safe_check_unparseable_rejects_witness:
  "validate_schema (text_of (normalize (map of_char '' example.com/page '')))
     = Inr ''http://example.com/page''
   \<and> reachability ''http://example.com/page'' (Fetched 200 ''OK'') = Inr ''200: OK''
   \<and> admit decimal ''http://short.beardfist.com/'' (map of_char '' example.com/page '')
        (Fetched 200 ''OK'') Unparseable = Inl (UserWarning CriticalJSONFailure)"
  using safe_check_unparseable_rejects[of decimal "map of_char '' example.com/page ''"
      "''http://example.com/page''" "Fetched 200 ''OK''" "''200: OK''"
      "''http://short.beardfist.com/''"]
    normalized_schema_example reachability_example
  by blast

text \<open>
  Claim C5 says that a fetch that completes is declined as not found exactly when its
  status code is 404, and that a status of 500 is accepted. \<open>main_page\<close> looks for the
  text \<open>404\<close> in \<open>str(status_code) + ': ' + reason\<close>, so a reply with status 500 and
  the reason phrase "Backend 404" is declined as a 404. The rest of the claim holds on
  the code: a status of 404 is always declined (\<open>reachability_404\<close>), a failed fetch
  is declined as unreachable (\<open>reachability_failed\<close>), and a three-digit status
  other than 404 is accepted as long as the reason phrase does not hold the text
  \<open>404\<close> (\<open>reachability_three_digit_status\<close>).
\<close>

theorem reachability_500_reason_404:
  "reachability ''http://example.com/page'' (Fetched 500 ''Backend 404'')
     = Inl (UserWarning (Gives404 ''http://example.com/page''))"
  by (simp add: reachability_def validate_url_def py_str_def py_in_def py_find_def)

text \<open>
  Claim C6. When a schema is found in the URL and it is not exactly \<open>http\<close> or \<open>https\<close>
  (the comparison is case-sensitive), \<open>validate_schema\<close> raises the illegal-schema
  warning and the admission is declined with it; when no schema is found, \<open>http://\<close> is
  put in front and the URL goes on. Whatever stands in front of \<open>://\<close> and holds no
  colon is the schema found. \<open>ftp://host/path\<close> is declined and \<open>host/path\<close> becomes
  \<open>http://host/path\<close>.
\<close>

theorem validate_schema_rejects_foreign_schemes:
  "(schema_of url \<noteq> '''' \<and> schema_of url \<noteq> ''http'' \<and> schema_of url \<noteq> ''https'' \<longrightarrow>
      validate_schema url = Inl (UserWarning (IllegalSchema (schema_of url)))
      \<and> (text_of (normalize raw) = url \<longrightarrow>
           admit to_int request_url raw got reply
             = Inl (UserWarning (IllegalSchema (schema_of url)))))
   \<and> (schema_of url = '''' \<longrightarrow> validate_schema url = Inr (''http://'' @ url))
   \<and> (CHR '':'' \<notin> set s \<and> s \<noteq> '''' \<and> s \<noteq> ''http'' \<and> s \<noteq> ''https'' \<longrightarrow>
        validate_schema (s @ ''://'' @ rest) = Inl (UserWarning (IllegalSchema s)))
   \<and> validate_schema ''ftp://host/path'' = Inl (UserWarning (IllegalSchema ''ftp''))
   \<and> validate_schema ''HTTP://host/path'' = Inl (UserWarning (IllegalSchema ''HTTP''))
   \<and> validate_schema ''host/path'' = Inr ''http://host/path''"
proof -
  have "validate_schema ''ftp://host/path'' = Inl (UserWarning (IllegalSchema ''ftp''))"
    by (simp add: validate_schema_def schema_of_def py_in_def py_find_def py_upto_def)
  moreover
  have "validate_schema ''HTTP://host/path'' = Inl (UserWarning (IllegalSchema ''HTTP''))"
    by (simp add: validate_schema_def schema_of_def py_in_def py_find_def py_upto_def)
  moreover have "validate_schema ''host/path'' = Inr ''http://host/path''"
    by (simp add: validate_schema_def schema_of_def py_in_def py_find_def punctuation_def)
  moreover have "validate_schema (s @ ''://'' @ rest) = Inl (UserWarning (IllegalSchema s))"
    if "CHR '':'' \<notin> set s" "s \<noteq> ''''" "s \<noteq> ''http''" "s \<noteq> ''https''"
    using that schema_of_explicit[of s rest] by (simp add: validate_schema_cases)
  ultimately show ?thesis
    using admit_schema_rejected[of raw _ to_int request_url got reply]
    by (auto simp: validate_schema_cases)
qed

theorem validate_schema_rejects_foreign_schemes_witness:
  "schema_of ''mailto:bob'' = ''mailto''
   \<and> validate_schema ''mailto:bob'' = Inl (UserWarning (IllegalSchema ''mailto''))
   \<and> schema_of ''example.com/page'' = ''''
   \<and> validate_schema ''example.com/page'' = Inr ''http://example.com/page''
   \<and> validate_schema ''data://x'' = Inl (UserWarning (IllegalSchema ''data''))"
proof -
  have a: "schema_of ''mailto:bob'' = ''mailto''"
    by (simp add: schema_of_def py_in_def py_find_def punctuation_def py_upto_def)
  have b: "schema_of ''example.com/page'' = ''''"
    by (simp add: schema_of_def py_in_def py_find_def punctuation_def)
  from validate_schema_rejects_foreign_schemes[of "''mailto:bob''" "[]" decimal "[]" Failed
      Unparseable "''data''" "''x''"]
    validate_schema_rejects_foreign_schemes[of "''example.com/page''" "[]" decimal "[]" Failed
      Unparseable "''data''" "''x''"] a b
  show ?thesis by simp
qed

text \<open>
  Claim C7 says that a URL which merely contains the service's own base URL elsewhere
  than at its start is not declined by the self-reference stage. The stage tests
  \<open>request.url in long_url\<close>, so a URL that carries the base URL in its query string,
  and does not start with it, is declined as already simplified. The stage declines
  exactly the URLs that hold the base URL anywhere and differ from it
  (\<open>self_reference_sublist\<close>); those that start with it are among them, and the base
  URL itself is let through, as the claim says.
\<close>

theorem self_reference_rejects_embedded_origin:
  "self_reference ''http://short.beardfist.com/''
     ''http://example.com/?u=http://short.beardfist.com/'' = Inl (UserWarning AlreadySimplified)
   \<and> \<not> prefix ''http://short.beardfist.com/''
          ''http://example.com/?u=http://short.beardfist.com/''"
  by (simp add: self_reference_def py_in_def py_find_def)

text \<open>
  Claim C8, as the specification states it, has no character outside the 7-bit
  printable range survive normalization. \<open>remove_non_ascii\<close> keeps every character
  below 128: the BEL (7) inside \<open>a\<close>, BEL, \<open>b\<close> survives.
\<close>

theorem normalize_keeps_control_characters_counterexample:
  "7 \<in> set (normalize [97, 7, 98]) \<and> \<not> printable_7bit 7"
  by (simp add: normalize_def strip_def remove_non_ascii_def py_isspace_def printable_7bit_def)

text \<open>
  Claim C8, amended. The normalization stage, applied to every raw input string, first
  removes the surrounding whitespace of the input (the input is whitespace, then the
  trimmed text, then whitespace, and the trimmed text neither starts nor ends with
  whitespace) and then removes exactly the characters whose code point is 128 or more;
  an input of characters below 128 is only trimmed, so control characters such as NUL,
  BEL or a TAB inside the string survive.
\<close>

theorem normalize_removes_non_ascii_only:
  "(\<exists>pre post. raw = pre @ strip raw @ post \<and> list_all py_isspace pre \<and> list_all py_isspace post)
   \<and> (strip raw = [] \<or> \<not> py_isspace (hd (strip raw)) \<and> \<not> py_isspace (last (strip raw)))
   \<and> normalize raw = filter (\<lambda>i. i < 128) (strip raw)
   \<and> (list_all (\<lambda>i. i < 128) raw \<longrightarrow> normalize raw = strip raw)"
proof -
  have "normalize raw = strip raw" if "list_all (\<lambda>i. i < 128) raw"
  proof -
    from strip_decomposition[of raw] obtain pre post where "raw = pre @ strip raw @ post"
      by blast
    then have "set (strip raw) \<subseteq> set raw"
      by (metis Un_upper1 Un_upper2 set_append subset_trans)
    with that show ?thesis
      by (auto simp: normalize_def remove_non_ascii_def list_all_iff intro!: filter_True)
  qed
  then show ?thesis
    using strip_decomposition[of raw] strip_ends[of raw]
    by (auto simp: normalize_def remove_non_ascii_def)
qed

theorem normalize_removes_non_ascii_only_witness:
  "list_all (\<lambda>i. i < 128) [32 :: nat, 97, 0, 7, 9, 98, 10]
   \<and> strip [32, 97, 0, 7, 9, 98, 10] = [97, 0, 7, 9, 98]
   \<and> normalize [32, 97, 0, 7, 9, 98, 10] = [97, 0, 7, 9, 98]
   \<and> normalize [32, 233, 32, 97, 8364, 98] = [32, 97, 98]"
proof -
  have "strip [32, 97, 0, 7, 9, 98, 10] = [97, 0, 7, 9, 98]"
    by (simp add: strip_def py_isspace_def)
  moreover have "strip [32, 233, 32, 97, 8364, 98] = [233, 32, 97, 8364, 98]"
    by (simp add: strip_def py_isspace_def)
  ultimately show ?thesis
    using normalize_removes_non_ascii_only[of "[32, 97, 0, 7, 9, 98, 10]"]
      normalize_removes_non_ascii_only[of "[32, 233, 32, 97, 8364, 98]"]
    by simp
qed

text \<open>
  Claim C9. For every valid prior code \<open>c\<close> and every list of reserved strings \<open>r\<close>, the
  regeneration terminates within \<open>|r| + 1\<close> generation steps: a budget of
  \<open>card (set r) + 1\<close> calls is enough for the function to return its result, and that
  result is not reserved.
\<close>

theorem next_short_string_terminates_within_bound:
  assumes "valid_code c"
  shows "next_short_string_fuel (card (set protected) + 1) (Some c) protected
           = Some (next_short_string (Some c) protected)
         \<and> next_short_string (Some c) protected \<notin> set protected"
proof -
  from assms have ne: "c \<noteq> []" by (simp add: valid_code_def)
  have "card {p \<in> set protected. code_less c p} < card (set protected) + 1"
    using card_reserved_above[of "protected" c] by simp
  then show ?thesis
    using fuel_enough[OF ne] next_short_string_not_reserved[OF ne] by simp
qed

theorem next_short_string_terminates_within_bound_witness:
  "valid_code ''reversd''
   \<and> next_short_string_fuel (card (set protected_paths) + 1) (Some ''reversd'') protected_paths
       = Some ''reversf''
   \<and> next_short_string_fuel 1 (Some ''reversd'') protected_paths = None"
proof -
  have "next_short_string (Some ''reversd'') protected_paths = ''reversf''"
    by code_simp
  moreover have "next_short_string_fuel 1 (Some ''reversd'') protected_paths = None"
    by code_simp
  ultimately show ?thesis
    using next_short_string_terminates_within_bound[OF valid_reversd, of protected_paths]
      valid_reversd
    by simp
qed

text \<open>
  Claim C10. When the first host entry of the reply has a \<open>categories\<close> object whose
  keys all read as category codes and one of the codes is outside the recognised ones
  (101, 103, 104, 105, 203, 204, 205, 206), \<open>safe_check\<close> returns \<open>True\<close>, whatever
  recognised codes the reply also holds, and an admission that reached the stage goes
  on to the self-reference test.
\<close>

theorem safe_check_unrecognised_category_passes:
  assumes "map_of host_data ''categories'' = Some (JObj cats)"
    and "\<forall>k \<in> set (map fst cats). to_int k \<noteq> None"
    and "k \<in> set (map fst cats)" and "to_int k = Some n"
    and "n \<notin> {101, 103, 104, 105, 203, 204, 205, 206}"
  shows "safe_check to_int (Parsed (JObj ((host, JObj host_data) # others))) = Inr True
     \<and> (validate_schema (text_of (normalize raw)) = Inr u \<longrightarrow> reachability u got = Inr st \<longrightarrow>
          admit to_int request_url raw got (Parsed (JObj ((host, JObj host_data) # others)))
            = self_reference request_url u)"
proof -
  have "map_of unwanted_WOT_categories n = None"
    using assms(5) by (simp add: recognised_codes)
  with assms have "lookup_categories to_int (map fst cats) = Inl KeyError"
    by (intro lookup_categories_KeyError[of _ _ k n]) auto
  with assms(1)
  have ok: "safe_check to_int (Parsed (JObj ((host, JObj host_data) # others))) = Inr True"
    by (rule safe_check_KeyError)
  then show ?thesis
    using admit_after_reachability[of raw u got st to_int request_url
        "Parsed (JObj ((host, JObj host_data) # others))"]
    by simp
qed

theorem safe_check_unrecognised_category_passes_witness:
  "decimal ''101'' = Some 101 \<and> decimal ''501'' = Some 501
   \<and> map_of unwanted_WOT_categories 101 = Some ''Malware or viruses''
   \<and> map_of unwanted_WOT_categories 501 = None
   \<and> safe_check decimal (Parsed wot_example) = Inr True
   \<and> admit decimal ''http://short.beardfist.com/'' (map of_char '' example.com/page '')
        (Fetched 200 ''OK'') (Parsed wot_example) = Inr ''http://example.com/page''"
proof -
  have m: "map_of unwanted_WOT_categories 101 = Some ''Malware or viruses''"
    "map_of unwanted_WOT_categories 501 = None"
    by (simp_all add: unwanted_WOT_categories_def)
  have "safe_check decimal (Parsed wot_example) = Inr True
     \<and> (validate_schema (text_of (normalize (map of_char '' example.com/page '')))
           = Inr ''http://example.com/page'' \<longrightarrow>
         reachability ''http://example.com/page'' (Fetched 200 ''OK'') = Inr ''200: OK'' \<longrightarrow>
          admit decimal ''http://short.beardfist.com/'' (map of_char '' example.com/page '')
            (Fetched 200 ''OK'') (Parsed wot_example)
            = self_reference ''http://short.beardfist.com/'' ''http://example.com/page'')"
    unfolding wot_example_def
    by (rule safe_check_unrecognised_category_passes[where k = "''501''" and n = 501
          and cats = "[(''101'', JInt 90), (''501'', JInt 99)]"])
      (simp_all add: decimal_examples)
  with decimal_examples m normalized_schema_example self_reference_example
    reachability_example
  show ?thesis by simp
qed

end
